theory Spec2Isabelle
  imports Main "HOL-Library.Word"
begin

section \<open>Machine integers of the demo programs\<close>

text \<open>
  The programs use the C++ types \<^verbatim>\<open>int\<close> (32 bits) for the countdown \<^verbatim>\<open>n\<close> and
  \<^verbatim>\<open>long long\<close> (64 bits) for the accumulator. Both are modelled as words: \<open>-\<close> and
  \<open>*\<close> wrap around modulo \<open>2 ^ 32\<close> and \<open>2 ^ 64\<close>, the comparison \<^verbatim>\<open>n <= 1\<close> is the
  signed one (\<open>\<le>s\<close>), and the implicit conversion of the \<^verbatim>\<open>int\<close> operand in
  \<^verbatim>\<open>accumulator * n\<close> to \<^verbatim>\<open>long long\<close> is the sign extension \<open>scast\<close>. The product
  silently wraps, which is the behaviour the demonstrations rely on for large inputs.
\<close>

type_synonym c_int = "32 word"
type_synonym c_long_long = "64 word"

text \<open>Past the base case the decrement \<^verbatim>\<open>n - 1\<close> never wraps.\<close>

lemma sint_decrement:
  fixes n :: c_int
  assumes "\<not> n \<le>s 1"
  shows "sint (n - 1) = sint n - 1"
proof -
  have lt: "sint n < 2 ^ 31" using sint_lt [of n] by simp
  from assms have gt: "1 < sint n" by (simp add: word_sle_eq)
  have "sint (n - 1) = signed_take_bit 31 (sint n - 1)"
    by (simp add: sint_word_diff)
  also have "\<dots> = sint n - 1"
    using lt gt by (intro signed_take_bit_int_eq_self) simp_all
  finally show ?thesis .
qed

lemma sint_decrement_less:
  fixes n :: c_int
  assumes "\<not> n \<le>s 1"
  shows "0 < sint n \<and> sint (n - 1) < sint n"
  using assms sint_decrement [OF assms] by (simp add: word_sle_eq)

section \<open>The tail-recursive factorial\<close>

text \<open>
  \<^verbatim>\<open>long long factorial_helper(int n, long long accumulator)\<close>: the base case
  \<^verbatim>\<open>n <= 1\<close> returns the accumulator, every other call recurses on
  \<^verbatim>\<open>(n - 1, accumulator * n)\<close>.
\<close>

function factorial_helper :: "c_int \<Rightarrow> c_long_long \<Rightarrow> c_long_long" where
  "factorial_helper n accumulator =
     (if n \<le>s 1 then accumulator
      else factorial_helper (n - 1) (accumulator * scast n))"
  by pat_completeness auto
termination
  by (relation "measure (\<lambda>(n, accumulator). nat (sint n))")
    (simp_all add: sint_decrement_less)

declare factorial_helper.simps [simp del]

text \<open>\<^verbatim>\<open>long long factorial(int n)\<close>, the public entry of the tail-recursive program.\<close>

definition factorial :: "c_int \<Rightarrow> c_long_long" where
  "factorial n = factorial_helper n 1"

text \<open>
  The same recursion with a ghost counter of the recursive calls made, that is, of the
  transitions \<^verbatim>\<open>(n, accumulator) \<rightarrow> (n - 1, accumulator * n)\<close> applied.
\<close>

function factorial_helper_counted ::
  "c_int \<Rightarrow> c_long_long \<Rightarrow> nat \<Rightarrow> c_long_long \<times> nat" where
  "factorial_helper_counted n accumulator steps =
     (if n \<le>s 1 then (accumulator, steps)
      else factorial_helper_counted (n - 1) (accumulator * scast n) (Suc steps))"
  by pat_completeness auto
termination
  by (relation "measure (\<lambda>(n, accumulator, steps). nat (sint n))")
    (simp_all add: sint_decrement_less)

declare factorial_helper_counted.simps [simp del]

section \<open>The trampoline\<close>

text \<open>
  \<^verbatim>\<open>struct State { int n; long long accumulator; }\<close>. A record field is a global
  constant in HOL, so the fields carry the prefix \<open>state_\<close> to leave \<open>n\<close> and
  \<open>accumulator\<close> free as parameter names.
\<close>

record State =
  state_n :: c_int
  state_accumulator :: c_long_long

text \<open>
  The \<^verbatim>\<open>while (true)\<close> loop of \<^verbatim>\<open>factorial_trampoline\<close>: one unfolding is one
  iteration, the \<^verbatim>\<open>continue\<close> is the recursive call.
\<close>

function trampoline_loop :: "State \<Rightarrow> c_long_long" where
  "trampoline_loop current_state =
     (if state_n current_state \<le>s 1 then state_accumulator current_state
      else
        let next_n = state_n current_state - 1;
            next_accumulator = state_accumulator current_state * scast (state_n current_state)
        in trampoline_loop \<lparr>state_n = next_n, state_accumulator = next_accumulator\<rparr>)"
  by pat_completeness auto
termination
  by (relation "measure (\<lambda>current_state. nat (sint (state_n current_state)))")
    (simp_all add: sint_decrement_less)

declare trampoline_loop.simps [simp del]

definition factorial_trampoline :: "c_int \<Rightarrow> c_long_long" where
  "factorial_trampoline n = trampoline_loop \<lparr>state_n = n, state_accumulator = 1\<rparr>"

text \<open>The loop with a ghost counter of the state updates (transition applications).\<close>

function trampoline_loop_counted :: "State \<Rightarrow> nat \<Rightarrow> c_long_long \<times> nat" where
  "trampoline_loop_counted current_state steps =
     (if state_n current_state \<le>s 1 then (state_accumulator current_state, steps)
      else
        let next_n = state_n current_state - 1;
            next_accumulator = state_accumulator current_state * scast (state_n current_state)
        in trampoline_loop_counted
             \<lparr>state_n = next_n, state_accumulator = next_accumulator\<rparr> (Suc steps))"
  by pat_completeness auto
termination
  by (relation "measure (\<lambda>(current_state, steps). nat (sint (state_n current_state)))")
    (simp_all add: sint_decrement_less)

declare trampoline_loop_counted.simps [simp del]

text \<open>
  The states at the start of the iterations of the loop started by
  \<^verbatim>\<open>factorial_trampoline(N)\<close>: the initial state, and the state assigned by an iteration
  that did not return.
\<close>

inductive iteration_start :: "c_int \<Rightarrow> State \<Rightarrow> bool" for N :: c_int where
  initial: "iteration_start N \<lparr>state_n = N, state_accumulator = 1\<rparr>"
| continue:
    "iteration_start N current_state \<Longrightarrow> \<not> state_n current_state \<le>s 1 \<Longrightarrow>
     iteration_start N
       \<lparr>state_n = state_n current_state - 1,
        state_accumulator = state_accumulator current_state * scast (state_n current_state)\<rparr>"

text \<open>
  The invariant of the loop started with \<open>N\<close>: the countdown has not passed 1, and
  the accumulator times the factorial of the countdown is congruent to \<open>N!\<close>.
\<close>

definition loop_invariant :: "c_int \<Rightarrow> State \<Rightarrow> bool" where
  "loop_invariant N s \<longleftrightarrow>
     1 \<le>s state_n s \<and>
     (unat (state_accumulator s) * fact (nat (sint (state_n s)))) mod 2 ^ 64 =
       fact (nat (sint N)) mod 2 ^ 64"

section \<open>The trampoline with an explicit debug stack\<close>

text \<open>
  \<^verbatim>\<open>struct DebugFrame { int n; long long accumulator; int depth; }\<close>, the fields
  prefixed as for \<open>State\<close>.
\<close>

record DebugFrame =
  frame_n :: c_int
  frame_accumulator :: c_long_long
  frame_depth :: c_int

text \<open>
  The loop of \<^verbatim>\<open>factorial_trampoline_with_debug\<close>. The local vector \<^verbatim>\<open>debug_stack\<close>
  is threaded through and returned with the result, so that it can be observed. The cast
  \<^verbatim>\<open>(int)debug_stack.size()\<close> keeps the low 32 bits of the size, as \<open>of_nat\<close> does.
\<close>

function debug_loop ::
  "c_int \<Rightarrow> c_long_long \<Rightarrow> DebugFrame list \<Rightarrow> c_long_long \<times> DebugFrame list" where
  "debug_loop current_n current_acc debug_stack =
     (let frame = \<lparr>frame_n = current_n, frame_accumulator = current_acc,
                   frame_depth = of_nat (length debug_stack)\<rparr>;
          debug_stack = debug_stack @ [frame]
      in if current_n \<le>s 1 then (current_acc, debug_stack)
         else
           let next_acc = current_acc * scast current_n;
               next_n = current_n - 1
           in debug_loop next_n next_acc debug_stack)"
  by pat_completeness auto
termination
  by (relation "measure (\<lambda>(current_n, current_acc, debug_stack). nat (sint current_n))")
    (simp_all add: sint_decrement_less)

declare debug_loop.simps [simp del]

definition factorial_trampoline_with_debug :: "c_int \<Rightarrow> c_long_long \<times> DebugFrame list" where
  "factorial_trampoline_with_debug n = debug_loop n 1 []"

text \<open>The debug loop with a ghost counter of the state updates.\<close>

function debug_loop_counted ::
  "c_int \<Rightarrow> c_long_long \<Rightarrow> DebugFrame list \<Rightarrow> nat \<Rightarrow> c_long_long \<times> DebugFrame list \<times> nat"
  where
  "debug_loop_counted current_n current_acc debug_stack steps =
     (let frame = \<lparr>frame_n = current_n, frame_accumulator = current_acc,
                   frame_depth = of_nat (length debug_stack)\<rparr>;
          debug_stack = debug_stack @ [frame]
      in if current_n \<le>s 1 then (current_acc, debug_stack, steps)
         else
           let next_acc = current_acc * scast current_n;
               next_n = current_n - 1
           in debug_loop_counted next_n next_acc debug_stack (Suc steps))"
  by pat_completeness auto
termination
  by (relation
      "measure (\<lambda>(current_n, current_acc, debug_stack, steps). nat (sint current_n))")
    (simp_all add: sint_decrement_less)

declare debug_loop_counted.simps [simp del]

section \<open>Continuation-passing style\<close>

text \<open>
  The lines \<^verbatim>\<open>factorial_cps\<close> and its continuations write to the output stream, in
  order: entering a call, reaching the base case, and a continuation for \<^verbatim>\<open>n\<close>
  receiving a sub-result.
\<close>

datatype event =
  Entering c_int
| Base_case
| Continuation_for c_int c_long_long

text \<open>
  A \<^verbatim>\<open>Continuation\<close> is a callable object. The program meets two kinds: the one its
  caller supplies, an arbitrary function, and the closure \<^verbatim>\<open>next_k\<close>, which holds
  copies of \<^verbatim>\<open>n\<close> and of the outer continuation \<^verbatim>\<open>k\<close> (capture \<^verbatim>\<open>[=]\<close>). Calling
  a continuation may write output, so it maps the sub-result and the output so far to
  its result and the extended output.
\<close>

datatype Continuation =
  Supplied "c_long_long \<Rightarrow> event list \<Rightarrow> c_long_long \<times> event list"
| Next_k c_int Continuation

fun invoke :: "Continuation \<Rightarrow> c_long_long \<Rightarrow> event list \<Rightarrow> c_long_long \<times> event list" where
  "invoke (Supplied f) result out = f result out"
| "invoke (Next_k n k) sub_result out =
     invoke k (scast n * sub_result) (out @ [Continuation_for n sub_result])"

text \<open>The \<^verbatim>\<open>identity\<close> continuation of \<^verbatim>\<open>main\<close>: it returns what it receives.\<close>

definition identity :: Continuation where
  "identity = Supplied (\<lambda>final_result out. (final_result, out))"

function factorial_cps :: "c_int \<Rightarrow> Continuation \<Rightarrow> event list \<Rightarrow> c_long_long \<times> event list"
  where
  "factorial_cps n k out =
     (let out = out @ [Entering n]
      in if n \<le>s 1 then invoke k 1 (out @ [Base_case])
         else
           let next_k = Next_k n k
           in factorial_cps (n - 1) next_k out)"
  by pat_completeness auto
termination
  by (relation "measure (\<lambda>(n, k, out). nat (sint n))")
    (simp_all add: sint_decrement_less)

declare factorial_cps.simps [simp del]

text \<open>
  \<^verbatim>\<open>factorial_cps\<close> with ghost results. Beside what the run returns, it hands back the
  continuation that the base case invoked, the list \<open>built\<close> of the \<open>n\<close> for which a
  closure \<^verbatim>\<open>next_k\<close> was constructed, in the order of construction, and a counter of
  the non-base-case steps taken. Erasing the three ghost results gives \<open>factorial_cps\<close>.
\<close>

function factorial_cps_instrumented ::
  "c_int \<Rightarrow> Continuation \<Rightarrow> event list \<Rightarrow> c_int list \<Rightarrow> nat \<Rightarrow>
     (c_long_long \<times> event list) \<times> Continuation \<times> c_int list \<times> nat"
  where
  "factorial_cps_instrumented n k out built steps =
     (let out = out @ [Entering n]
      in if n \<le>s 1 then (invoke k 1 (out @ [Base_case]), k, built, steps)
         else
           let next_k = Next_k n k
           in factorial_cps_instrumented (n - 1) next_k out (built @ [n]) (Suc steps))"
  by pat_completeness auto
termination
  by (relation "measure (\<lambda>(n, k, out, built, steps). nat (sint n))")
    (simp_all add: sint_decrement_less)

declare factorial_cps_instrumented.simps [simp del]

text \<open>The number of \<^verbatim>\<open>next_k\<close> closures chained onto the supplied continuation.\<close>

fun chain_length :: "Continuation \<Rightarrow> nat" where
  "chain_length (Supplied f) = 0"
| "chain_length (Next_k n k) = Suc (chain_length k)"

text \<open>
  The \<open>n\<close> held by the closures of a chain, from the outermost closure, the one that is
  invoked first, to the innermost, which wraps the supplied continuation.
\<close>

fun chain_order :: "Continuation \<Rightarrow> c_int list" where
  "chain_order (Supplied f) = []"
| "chain_order (Next_k n k) = n # chain_order k"

text \<open>
  Reading the output of a run. \<open>firing_order\<close> lists the \<open>n\<close> of the continuations that
  reported receiving a sub-result; \<open>multiplication_order\<close> lists the value the base case
  passes on (1) and then the factor of each continuation that fired.
\<close>

fun firing_order :: "event list \<Rightarrow> c_int list" where
  "firing_order [] = []"
| "firing_order (Entering n # out) = firing_order out"
| "firing_order (Base_case # out) = firing_order out"
| "firing_order (Continuation_for n sub_result # out) = n # firing_order out"

fun multiplication_order :: "event list \<Rightarrow> c_long_long list" where
  "multiplication_order [] = []"
| "multiplication_order (Entering n # out) = multiplication_order out"
| "multiplication_order (Base_case # out) = 1 # multiplication_order out"
| "multiplication_order (Continuation_for n sub_result # out) =
     scast n # multiplication_order out"

text \<open>
  The expected output in closed form: the calls entered, from \<open>n\<close> down to 1 (the input
  alone when it is at most 1), and the continuations unwinding from 2 up to \<open>n\<close>, the
  one for \<open>i\<close> receiving \<open>(i - 1)!\<close>.
\<close>

definition countdown :: "c_int \<Rightarrow> c_int list" where
  "countdown n = (if n \<le>s 1 then [n] else map of_nat (rev [1..<Suc (nat (sint n))]))"

definition unwinding :: "c_int \<Rightarrow> event list" where
  "unwinding n =
     map (\<lambda>i. Continuation_for (of_nat i) (of_nat (fact (i - 1)))) [2..<Suc (nat (sint n))]"

section \<open>Unfolding the loops\<close>

text \<open>One unfolding of each recursion, at the base case and past it.\<close>

lemma factorial_helper_base:
  "n \<le>s 1 \<Longrightarrow> factorial_helper n accumulator = accumulator"
  by (subst factorial_helper.simps) simp

lemma factorial_helper_step:
  "\<not> n \<le>s 1 \<Longrightarrow>
   factorial_helper n accumulator = factorial_helper (n - 1) (accumulator * scast n)"
  by (subst factorial_helper.simps) simp

lemma factorial_helper_counted_base:
  "n \<le>s 1 \<Longrightarrow> factorial_helper_counted n accumulator steps = (accumulator, steps)"
  by (subst factorial_helper_counted.simps) simp

lemma factorial_helper_counted_step:
  "\<not> n \<le>s 1 \<Longrightarrow>
   factorial_helper_counted n accumulator steps =
     factorial_helper_counted (n - 1) (accumulator * scast n) (Suc steps)"
  by (subst factorial_helper_counted.simps) simp

lemma trampoline_loop_base:
  "state_n s \<le>s 1 \<Longrightarrow> trampoline_loop s = state_accumulator s"
  by (subst trampoline_loop.simps) simp

lemma trampoline_loop_step:
  "\<not> state_n s \<le>s 1 \<Longrightarrow>
   trampoline_loop s =
     trampoline_loop \<lparr>state_n = state_n s - 1,
       state_accumulator = state_accumulator s * scast (state_n s)\<rparr>"
  by (subst trampoline_loop.simps) simp

lemma trampoline_loop_counted_base:
  "state_n s \<le>s 1 \<Longrightarrow> trampoline_loop_counted s steps = (state_accumulator s, steps)"
  by (subst trampoline_loop_counted.simps) simp

lemma trampoline_loop_counted_step:
  "\<not> state_n s \<le>s 1 \<Longrightarrow>
   trampoline_loop_counted s steps =
     trampoline_loop_counted \<lparr>state_n = state_n s - 1,
       state_accumulator = state_accumulator s * scast (state_n s)\<rparr> (Suc steps)"
  by (subst trampoline_loop_counted.simps) simp



section \<open>The loops compute the factorial\<close>

lemma scast_nat:
  fixes n :: c_int
  assumes "0 \<le> sint n"
  shows "(scast n :: c_long_long) = of_nat (nat (sint n))"
proof -
  have "(scast n :: c_long_long) = word_of_int (sint n)" by (rule scast_eq)
  also have "sint n = int (nat (sint n))" using assms by simp
  also have "(word_of_int (int (nat (sint n))) :: c_long_long) = of_nat (nat (sint n))"
    by (rule of_int_of_nat_eq)
  finally show ?thesis .
qed

lemma fact_base:
  fixes n :: c_int
  assumes "n \<le>s 1"
  shows "fact (nat (sint n)) = (1 :: nat)"
proof -
  from assms have "sint n \<le> 1" by (simp add: word_sle_eq)
  then have "nat (sint n) = 0 \<or> nat (sint n) = 1" by linarith
  then show ?thesis by auto
qed

lemma fact_step:
  fixes n :: c_int
  assumes "\<not> n \<le>s 1"
  shows "scast n * of_nat (fact (nat (sint (n - 1)))) = (of_nat (fact (nat (sint n))) :: c_long_long)"
proof -
  from assms have gt: "1 < sint n" by (simp add: word_sle_eq)
  obtain m where m: "nat (sint n) = Suc m" using gt by (cases "nat (sint n)") simp_all
  have pred: "nat (sint (n - 1)) = m" using sint_decrement [OF assms] m by simp
  have "(scast n :: c_long_long) = of_nat (Suc m)" using scast_nat [of n] gt m by simp
  then show ?thesis unfolding pred m by (simp add: algebra_simps)
qed

lemma trampoline_loop_fact:
  "trampoline_loop s = state_accumulator s * of_nat (fact (nat (sint (state_n s))))"
proof (induction s rule: trampoline_loop.induct)
  case (1 current_state)
  show ?case
  proof (cases "state_n current_state \<le>s 1")
    case True
    then show ?thesis by (simp add: fact_base trampoline_loop_base)
  next
    case False
    have "trampoline_loop current_state =
        trampoline_loop \<lparr>state_n = state_n current_state - 1,
          state_accumulator = state_accumulator current_state * scast (state_n current_state)\<rparr>"
      using False by (rule trampoline_loop_step)
    also have "\<dots> = state_accumulator current_state * scast (state_n current_state)
        * of_nat (fact (nat (sint (state_n current_state - 1))))"
      using "1.IH" [OF False refl refl] by simp
    also have "\<dots> = state_accumulator current_state
        * of_nat (fact (nat (sint (state_n current_state))))"
      using fact_step [OF False] by (simp add: mult.assoc)
    finally show ?thesis .
  qed
qed


lemma factorial_helper_fact:
  "factorial_helper n accumulator = accumulator * of_nat (fact (nat (sint n)))"
proof (induction n accumulator rule: factorial_helper.induct)
  case (1 n accumulator)
  show ?case
  proof (cases "n \<le>s 1")
    case True
    then show ?thesis by (simp add: fact_base factorial_helper_base)
  next
    case False
    have "factorial_helper n accumulator = factorial_helper (n - 1) (accumulator * scast n)"
      using False by (rule factorial_helper_step)
    also have "\<dots> = accumulator * scast n * of_nat (fact (nat (sint (n - 1))))"
      using "1.IH" [OF False] .
    also have "\<dots> = accumulator * of_nat (fact (nat (sint n)))"
      using fact_step [OF False] by (simp add: mult.assoc)
    finally show ?thesis .
  qed
qed

section \<open>Counting the transitions\<close>

lemma steps_decrement:
  fixes n :: c_int
  assumes "\<not> n \<le>s 1"
  shows "Suc (nat (sint (n - 1)) - 1) = nat (sint n) - 1"
  using sint_decrement [OF assms] sint_decrement_less [OF assms] assms
  by (simp add: word_sle_eq)

lemma steps_base:
  fixes n :: c_int
  assumes "n \<le>s 1"
  shows "nat (sint n) \<le> Suc 0"
  using assms by (simp add: word_sle_eq)

lemma trampoline_loop_counted_eq:
  "trampoline_loop_counted s steps =
     (trampoline_loop s, steps + (nat (sint (state_n s)) - 1))"
proof (induction s steps rule: trampoline_loop_counted.induct)
  case (1 current_state steps)
  show ?case
  proof (cases "state_n current_state \<le>s 1")
    case True
    then show ?thesis
      by (simp add: steps_base trampoline_loop_counted_base trampoline_loop_base)
  next
    case False
    show ?thesis
      using "1.IH" [OF False refl refl] steps_decrement [OF False]
      by (simp add: trampoline_loop_counted_step [OF False] trampoline_loop_step [OF False])
  qed
qed

lemma factorial_helper_counted_eq:
  "factorial_helper_counted n accumulator steps =
     (factorial_helper n accumulator, steps + (nat (sint n) - 1))"
proof (induction n accumulator steps rule: factorial_helper_counted.induct)
  case (1 n accumulator steps)
  show ?case
  proof (cases "n \<le>s 1")
    case True
    then show ?thesis
      by (simp add: steps_base factorial_helper_counted_base factorial_helper_base)
  next
    case False
    show ?thesis
      using "1.IH" [OF False] steps_decrement [OF False]
      by (simp add: factorial_helper_counted_step [OF False] factorial_helper_step [OF False])
  qed
qed

section \<open>Numeric result\<close>

text \<open>
  C1. For every input \<open>n \<ge> 1\<close>, \<^verbatim>\<open>factorial_trampoline(n)\<close> returns the mathematical
  factorial \<open>n!\<close> reduced modulo \<open>2 ^ 64\<close>, the wrap-around of the unbounded factorial in
  the 64-bit accumulator, and \<^verbatim>\<open>factorial_helper(n, 1)\<close> returns the same value.
\<close>

theorem factorial_trampoline_is_factorial_mod:
  assumes "1 \<le>s n"
  shows "unat (factorial_trampoline n) = fact (nat (sint n)) mod 2 ^ 64
    \<and> factorial_helper n 1 = factorial_trampoline n"
  by (simp add: factorial_trampoline_def trampoline_loop_fact factorial_helper_fact
      unat_of_nat)

theorem factorial_trampoline_is_factorial_mod_witness:
  "(1 :: c_int) \<le>s 21
    \<and> unat (factorial_trampoline 21) = 14197454024290336768
    \<and> (fact 21 :: nat) = 51090942171709440000
    \<and> factorial_helper 21 1 = factorial_trampoline 21"
  using factorial_trampoline_is_factorial_mod [of 21]
  by (simp add: fact_numeral word_sle_eq)

section \<open>The debug loop\<close>

lemma debug_loop_base:
  "current_n \<le>s 1 \<Longrightarrow>
   debug_loop current_n current_acc debug_stack =
     (current_acc,
      debug_stack @ [\<lparr>frame_n = current_n, frame_accumulator = current_acc,
        frame_depth = of_nat (length debug_stack)\<rparr>])"
  by (subst debug_loop.simps) simp

lemma debug_loop_step:
  "\<not> current_n \<le>s 1 \<Longrightarrow>
   debug_loop current_n current_acc debug_stack =
     debug_loop (current_n - 1) (current_acc * scast current_n)
       (debug_stack @ [\<lparr>frame_n = current_n, frame_accumulator = current_acc,
          frame_depth = of_nat (length debug_stack)\<rparr>])"
  by (subst debug_loop.simps) simp

lemma debug_loop_counted_base:
  "current_n \<le>s 1 \<Longrightarrow>
   debug_loop_counted current_n current_acc debug_stack steps =
     (current_acc,
      debug_stack @ [\<lparr>frame_n = current_n, frame_accumulator = current_acc,
        frame_depth = of_nat (length debug_stack)\<rparr>], steps)"
  by (subst debug_loop_counted.simps) simp

lemma debug_loop_counted_step:
  "\<not> current_n \<le>s 1 \<Longrightarrow>
   debug_loop_counted current_n current_acc debug_stack steps =
     debug_loop_counted (current_n - 1) (current_acc * scast current_n)
       (debug_stack @ [\<lparr>frame_n = current_n, frame_accumulator = current_acc,
          frame_depth = of_nat (length debug_stack)\<rparr>]) (Suc steps)"
  by (subst debug_loop_counted.simps) simp

lemma debug_loop_counted_eq:
  "debug_loop_counted current_n current_acc debug_stack steps =
     (fst (debug_loop current_n current_acc debug_stack),
      snd (debug_loop current_n current_acc debug_stack),
      steps + (nat (sint current_n) - 1))"
proof (induction current_n current_acc debug_stack steps rule: debug_loop_counted.induct)
  case (1 current_n current_acc debug_stack steps)
  show ?case
  proof (cases "current_n \<le>s 1")
    case True
    then show ?thesis
      by (simp add: steps_base debug_loop_counted_base debug_loop_base)
  next
    case False
    show ?thesis
      using "1.IH" [OF refl refl False refl refl] steps_decrement [OF False]
      by (simp add: debug_loop_counted_step [OF False] debug_loop_step [OF False])
  qed
qed

lemma debug_loop_result:
  "fst (debug_loop current_n current_acc debug_stack) =
     trampoline_loop \<lparr>state_n = current_n, state_accumulator = current_acc\<rparr>"
proof (induction current_n current_acc debug_stack rule: debug_loop.induct)
  case (1 current_n current_acc debug_stack)
  show ?case
  proof (cases "current_n \<le>s 1")
    case True
    then show ?thesis by (simp add: debug_loop_base trampoline_loop_base)
  next
    case False
    have "trampoline_loop \<lparr>state_n = current_n, state_accumulator = current_acc\<rparr> =
        trampoline_loop \<lparr>state_n = current_n - 1,
          state_accumulator = current_acc * scast current_n\<rparr>"
      using False by (subst trampoline_loop_step) simp_all
    then show ?thesis
      using "1.IH" [OF refl refl False refl refl]
      by (simp add: debug_loop_step [OF False])
  qed
qed

lemma debug_loop_length:
  "length (snd (debug_loop current_n current_acc debug_stack)) =
     length debug_stack + Suc (nat (sint current_n) - 1)"
proof (induction current_n current_acc debug_stack rule: debug_loop.induct)
  case (1 current_n current_acc debug_stack)
  show ?case
  proof (cases "current_n \<le>s 1")
    case True
    then show ?thesis by (simp add: debug_loop_base steps_base)
  next
    case False
    show ?thesis
      using "1.IH" [OF refl refl False refl refl] steps_decrement [OF False]
      by (simp add: debug_loop_step [OF False])
  qed
qed

lemma debug_loop_depth:
  assumes "\<forall>i < length debug_stack. frame_depth (debug_stack ! i) = of_nat i"
    and "i < length (snd (debug_loop current_n current_acc debug_stack))"
  shows "frame_depth (snd (debug_loop current_n current_acc debug_stack) ! i) = of_nat i"
  using assms
proof (induction current_n current_acc debug_stack rule: debug_loop.induct)
  case (1 current_n current_acc debug_stack)
  let ?frame = "\<lparr>frame_n = current_n, frame_accumulator = current_acc,
          frame_depth = of_nat (length debug_stack)\<rparr>"
  have pushed: "\<forall>j < length (debug_stack @ [?frame]).
      frame_depth ((debug_stack @ [?frame]) ! j) = of_nat j"
    using "1.prems"(1) by (auto simp: nth_append less_Suc_eq)
  show ?case
  proof (cases "current_n \<le>s 1")
    case True
    then show ?thesis using pushed "1.prems"(2) by (simp add: debug_loop_base)
  next
    case False
    show ?thesis
      using "1.IH" [OF refl refl False refl refl pushed] "1.prems"(2)
      by (simp add: debug_loop_step [OF False])
  qed
qed

lemma sint_of_nat_small:
  assumes "i < 2 ^ 31"
  shows "sint (of_nat i :: c_int) = int i"
proof -
  have "sint (of_nat i :: c_int) = signed_take_bit 31 (int i)"
    using sint_sbintrunc' [where 'a = 32, of "int i"] by simp
  also have "\<dots> = int i"
    using assms by (intro signed_take_bit_int_eq_self) simp_all
  finally show ?thesis .
qed

lemma trace_length_bound:
  fixes n :: c_int
  shows "Suc (nat (sint n) - 1) < 2 ^ 31"
proof -
  have "sint n < 2 ^ 31" using sint_lt [of n] by simp
  then show ?thesis by (cases "sint n \<le> 1") (simp_all add: nat_less_iff)
qed


section \<open>The loop invariant\<close>

lemma loop_invariant_word:
  "loop_invariant N s \<longleftrightarrow>
     1 \<le>s state_n s \<and>
     state_accumulator s * of_nat (fact (nat (sint (state_n s)))) =
       (of_nat (fact (nat (sint N))) :: c_long_long)"
proof -
  have "(of_nat (unat (state_accumulator s) * fact (nat (sint (state_n s)))) :: c_long_long) =
      state_accumulator s * of_nat (fact (nat (sint (state_n s))))"
    by simp
  moreover have "(of_nat x :: c_long_long) = of_nat y \<longleftrightarrow> x mod 2 ^ 64 = y mod 2 ^ 64"
    for x y :: nat
    by (simp add: word_of_nat_eq_iff take_bit_eq_mod)
  ultimately show ?thesis
    unfolding loop_invariant_def by metis
qed

lemma loop_invariant_initial: "1 \<le>s N \<Longrightarrow> loop_invariant N \<lparr>state_n = N, state_accumulator = 1\<rparr>"
  by (simp add: loop_invariant_def)

lemma loop_invariant_step:
  assumes "loop_invariant N t" and "\<not> state_n t \<le>s 1"
  shows "loop_invariant N
    \<lparr>state_n = state_n t - 1, state_accumulator = state_accumulator t * scast (state_n t)\<rparr>"
proof -
  have "1 \<le>s state_n t - 1"
    using assms(2) sint_decrement [OF assms(2)] by (simp add: word_sle_eq)
  moreover have "state_accumulator t * scast (state_n t)
      * of_nat (fact (nat (sint (state_n t - 1)))) =
      (of_nat (fact (nat (sint N))) :: c_long_long)"
    using assms(1) fact_step [OF assms(2)] by (simp add: loop_invariant_word mult.assoc)
  ultimately show ?thesis by (simp add: loop_invariant_word)
qed

lemma loop_invariant_exit:
  assumes "loop_invariant N t" and "state_n t \<le>s 1"
  shows "state_accumulator t = factorial_trampoline N"
  using assms fact_base [OF assms(2)]
  by (simp add: loop_invariant_word factorial_trampoline_def trampoline_loop_fact)

lemma iteration_start_invariant:
  assumes "1 \<le>s N" and "iteration_start N s"
  shows "loop_invariant N s"
  using assms(2)
proof (induction rule: iteration_start.induct)
  case initial
  show ?case using assms(1) by (rule loop_invariant_initial)
next
  case (continue current_state)
  then show ?case by (simp add: loop_invariant_step)
qed

lemma iteration_start_result:
  assumes "iteration_start N s"
  shows "trampoline_loop s = factorial_trampoline N"
  using assms
proof (induction rule: iteration_start.induct)
  case initial
  show ?case by (simp add: factorial_trampoline_def)
next
  case (continue current_state)
  then show ?case using trampoline_loop_step [of current_state] by simp
qed


section \<open>Properties of the debug trace\<close>

text \<open>
  C5. For every input of \<^verbatim>\<open>factorial_trampoline_with_debug\<close>, the length of the debug
  stack at termination is the number of transition applications plus one, and the
  \<^verbatim>\<open>depth\<close> field of each frame, read as a signed \<^verbatim>\<open>int\<close>, is its 0-based position,
  the number of frames pushed before it. The counted loop returns the result and the
  stack of the plain one.
\<close>

theorem debug_trace_length_and_depths:
  "let (result, debug_stack, steps) = debug_loop_counted n 1 [] 0
   in (result, debug_stack) = factorial_trampoline_with_debug n
      \<and> length debug_stack = steps + 1
      \<and> (\<forall>i < length debug_stack. sint (frame_depth (debug_stack ! i)) = int i)"
proof -
  let ?debug_stack = "snd (debug_loop n 1 [])"
  have len: "length ?debug_stack = Suc (nat (sint n) - 1)"
    by (simp add: debug_loop_length)
  have "sint (frame_depth (?debug_stack ! i)) = int i" if "i < length ?debug_stack" for i
  proof -
    have "frame_depth (?debug_stack ! i) = of_nat i"
      using that by (intro debug_loop_depth) simp_all
    moreover have "i < 2 ^ 31"
      using that len trace_length_bound [of n] by simp
    ultimately show ?thesis by (simp add: sint_of_nat_small)
  qed
  then show ?thesis
    using len by (simp add: debug_loop_counted_eq factorial_trampoline_with_debug_def)
qed

theorem debug_trace_length_and_depths_witness:
  "debug_loop_counted 3 1 [] 0 =
     (6, [\<lparr>frame_n = 3, frame_accumulator = 1, frame_depth = 0\<rparr>,
          \<lparr>frame_n = 2, frame_accumulator = 3, frame_depth = 1\<rparr>,
          \<lparr>frame_n = 1, frame_accumulator = 6, frame_depth = 2\<rparr>], 2)
   \<and> factorial_trampoline_with_debug 3 =
     (6, [\<lparr>frame_n = 3, frame_accumulator = 1, frame_depth = 0\<rparr>,
          \<lparr>frame_n = 2, frame_accumulator = 3, frame_depth = 1\<rparr>,
          \<lparr>frame_n = 1, frame_accumulator = 6, frame_depth = 2\<rparr>])
   \<and> length (snd (factorial_trampoline_with_debug 3)) = 2 + 1
   \<and> (2 :: nat) < length (snd (factorial_trampoline_with_debug 3))
   \<and> sint (frame_depth (snd (factorial_trampoline_with_debug 3) ! 2)) = 2"
proof -
  let ?frames = "[\<lparr>frame_n = 3, frame_accumulator = 1, frame_depth = 0\<rparr>,
          \<lparr>frame_n = 2, frame_accumulator = 3, frame_depth = 1\<rparr>,
          \<lparr>frame_n = 1, frame_accumulator = 6, frame_depth = (2 :: c_int)\<rparr>]"
  have run: "debug_loop_counted 3 1 [] 0 = (6, ?frames, 2)"
    by (simp add: debug_loop_counted.simps word_sle_eq)
  have debug: "factorial_trampoline_with_debug 3 = (6, ?frames)"
    using debug_trace_length_and_depths [of 3] by (simp add: run)
  have "\<forall>i < 3. sint (frame_depth (?frames ! i)) = int i"
    using debug_trace_length_and_depths [of 3] by (simp add: run)
  then have depth: "sint (frame_depth (?frames ! 2)) = int 2"
    by (rule allE [where x = 2]) simp
  show ?thesis using depth by (simp add: run debug)
qed

text \<open>
  C6. The debug stack is purely observational: for every input,
  \<^verbatim>\<open>factorial_trampoline_with_debug(n)\<close> returns the value that
  \<^verbatim>\<open>factorial_trampoline(n)\<close> returns.
\<close>

theorem debug_trace_is_observational:
  "fst (factorial_trampoline_with_debug n) = factorial_trampoline n"
  by (simp add: factorial_trampoline_with_debug_def factorial_trampoline_def debug_loop_result)

section \<open>Base cases and termination\<close>

text \<open>
  C7. For the inputs 1 and 0 the trampoline, the tail-recursive \<^verbatim>\<open>factorial\<close> and the
  debug variant stop at the base case: they return 1, apply no transition, and the debug
  stack holds the single frame of the initial state.
\<close>

theorem boundary_inputs_one_and_zero:
  "factorial_trampoline 1 = 1 \<and> factorial_trampoline 0 = 1
   \<and> factorial 1 = 1 \<and> factorial 0 = 1
   \<and> trampoline_loop_counted \<lparr>state_n = 1, state_accumulator = 1\<rparr> 0 = (1, 0)
   \<and> trampoline_loop_counted \<lparr>state_n = 0, state_accumulator = 1\<rparr> 0 = (1, 0)
   \<and> factorial_helper_counted 1 1 0 = (1, 0)
   \<and> factorial_helper_counted 0 1 0 = (1, 0)
   \<and> debug_loop_counted 1 1 [] 0 =
       (1, [\<lparr>frame_n = 1, frame_accumulator = 1, frame_depth = 0\<rparr>], 0)
   \<and> debug_loop_counted 0 1 [] 0 =
       (1, [\<lparr>frame_n = 0, frame_accumulator = 1, frame_depth = 0\<rparr>], 0)
   \<and> factorial_trampoline_with_debug 1 =
       (1, [\<lparr>frame_n = 1, frame_accumulator = 1, frame_depth = 0\<rparr>])
   \<and> factorial_trampoline_with_debug 0 =
       (1, [\<lparr>frame_n = 0, frame_accumulator = 1, frame_depth = 0\<rparr>])
   \<and> length (snd (factorial_trampoline_with_debug 1)) = 1
   \<and> length (snd (factorial_trampoline_with_debug 0)) = 1"
  by (simp add: factorial_trampoline_def factorial_def factorial_trampoline_with_debug_def
      trampoline_loop_base factorial_helper_base trampoline_loop_counted_base
      factorial_helper_counted_base debug_loop_base debug_loop_counted_base word_sle_eq)

text \<open>
  C9. For every input \<open>n \<le> 1\<close>, negative ones included, \<^verbatim>\<open>factorial_trampoline(n)\<close>
  and \<^verbatim>\<open>factorial(n)\<close> return 1 after zero transitions. For every input at all, both
  stop after \<open>nat (sint n) - 1\<close> transitions (truncated subtraction: none for
  \<open>n \<le> 1\<close>); both recursions are total functions, accepted with the measure
  \<open>nat (sint n)\<close>.
\<close>

theorem base_case_for_all_inputs_at_most_one:
  "(n \<le>s 1 \<longrightarrow>
      factorial_trampoline n = 1 \<and> factorial n = 1
      \<and> trampoline_loop_counted \<lparr>state_n = n, state_accumulator = 1\<rparr> 0 = (1, 0)
      \<and> factorial_helper_counted n 1 0 = (1, 0))
   \<and> trampoline_loop_counted \<lparr>state_n = n, state_accumulator = 1\<rparr> 0 =
       (factorial_trampoline n, nat (sint n) - 1)
   \<and> factorial_helper_counted n 1 0 = (factorial n, nat (sint n) - 1)"
  by (simp add: factorial_trampoline_def factorial_def
      trampoline_loop_base factorial_helper_base trampoline_loop_counted_base
      factorial_helper_counted_base trampoline_loop_counted_eq factorial_helper_counted_eq
      steps_base)

theorem base_case_for_all_inputs_at_most_one_witness:
  "(- 7 :: c_int) \<le>s 1
   \<and> factorial_trampoline (- 7) = 1 \<and> factorial (- 7) = 1
   \<and> trampoline_loop_counted \<lparr>state_n = - 7, state_accumulator = 1\<rparr> 0 = (1, 0)
   \<and> factorial_helper_counted (- 7) 1 0 = (1, 0)"
  using base_case_for_all_inputs_at_most_one [of "- 7"]
  by (simp add: word_sle_eq)

section \<open>Invariant of the trampoline loop\<close>

text \<open>
  C10. Started with \<open>N \<ge> 1\<close>, the loop of \<^verbatim>\<open>factorial_trampoline\<close> satisfies at the
  start of every iteration: the current \<open>n\<close> is at least 1 and accumulator times
  \<open>n!\<close> is congruent to \<open>N!\<close> modulo \<open>2 ^ 64\<close>. The transition preserves the
  invariant, and with the exit condition \<open>n \<le> 1\<close> it gives the returned value,
  \<open>N!\<close> modulo \<open>2 ^ 64\<close>.
\<close>

theorem trampoline_loop_invariant:
  assumes "1 \<le>s N"
  shows "(iteration_start N s \<longrightarrow>
            loop_invariant N s \<and> trampoline_loop s = factorial_trampoline N)
    \<and> (loop_invariant N t \<and> \<not> state_n t \<le>s 1 \<longrightarrow>
          loop_invariant N
            \<lparr>state_n = state_n t - 1,
             state_accumulator = state_accumulator t * scast (state_n t)\<rparr>)
    \<and> (loop_invariant N t \<and> state_n t \<le>s 1 \<longrightarrow>
          state_accumulator t = factorial_trampoline N
          \<and> unat (state_accumulator t) = fact (nat (sint N)) mod 2 ^ 64)"
proof -
  have "unat (factorial_trampoline N) = fact (nat (sint N)) mod 2 ^ 64"
    by (simp add: factorial_trampoline_def trampoline_loop_fact unat_of_nat)
  then show ?thesis
    using assms
    by (auto simp: iteration_start_invariant iteration_start_result
        loop_invariant_step loop_invariant_exit)
qed

theorem trampoline_loop_invariant_witness:
  "(1 :: c_int) \<le>s 4
   \<and> iteration_start 4 \<lparr>state_n = 3, state_accumulator = 4\<rparr>
   \<and> loop_invariant 4 \<lparr>state_n = 3, state_accumulator = 4\<rparr>
   \<and> \<not> state_n \<lparr>state_n = 3, state_accumulator = 4\<rparr> \<le>s 1
   \<and> loop_invariant 4 \<lparr>state_n = 2, state_accumulator = 12\<rparr>
   \<and> iteration_start 4 \<lparr>state_n = 1, state_accumulator = 24\<rparr>
   \<and> state_n \<lparr>state_n = 1, state_accumulator = 24\<rparr> \<le>s 1
   \<and> factorial_trampoline 4 = 24"
proof -
  have le: "(1 :: c_int) \<le>s 4" by (simp add: word_sle_eq)
  have s4: "iteration_start 4 \<lparr>state_n = 4, state_accumulator = 1\<rparr>"
    by (rule iteration_start.initial)
  have s3: "iteration_start 4 \<lparr>state_n = 3, state_accumulator = 4\<rparr>"
    using iteration_start.continue [OF s4] by (simp add: word_sle_eq)
  have s2: "iteration_start 4 \<lparr>state_n = 2, state_accumulator = 12\<rparr>"
    using iteration_start.continue [OF s3] by (simp add: word_sle_eq)
  have s1: "iteration_start 4 \<lparr>state_n = 1, state_accumulator = 24\<rparr>"
    using iteration_start.continue [OF s2] by (simp add: word_sle_eq)
  show ?thesis
    using le s3 s1
      trampoline_loop_invariant [OF le, of "\<lparr>state_n = 3, state_accumulator = 4\<rparr>"
        "\<lparr>state_n = 3, state_accumulator = 4\<rparr>"]
      trampoline_loop_invariant [OF le, of "\<lparr>state_n = 1, state_accumulator = 24\<rparr>"
        "\<lparr>state_n = 1, state_accumulator = 24\<rparr>"]
    by (simp add: word_sle_eq)
qed

section \<open>The continuation-passing run\<close>

lemma factorial_cps_base:
  "n \<le>s 1 \<Longrightarrow> factorial_cps n k out = invoke k 1 (out @ [Entering n, Base_case])"
  by (subst factorial_cps.simps) simp

lemma factorial_cps_step:
  "\<not> n \<le>s 1 \<Longrightarrow>
   factorial_cps n k out = factorial_cps (n - 1) (Next_k n k) (out @ [Entering n])"
  by (subst factorial_cps.simps) simp

lemma factorial_cps_instrumented_base:
  "n \<le>s 1 \<Longrightarrow>
   factorial_cps_instrumented n k out built steps =
     (invoke k 1 (out @ [Entering n, Base_case]), k, built, steps)"
  by (subst factorial_cps_instrumented.simps) simp

lemma factorial_cps_instrumented_step:
  "\<not> n \<le>s 1 \<Longrightarrow>
   factorial_cps_instrumented n k out built steps =
     factorial_cps_instrumented (n - 1) (Next_k n k) (out @ [Entering n]) (built @ [n])
       (Suc steps)"
  by (subst factorial_cps_instrumented.simps) simp

lemma of_nat_nat_sint:
  fixes n :: c_int
  assumes "0 \<le> sint n"
  shows "of_nat (nat (sint n)) = n"
proof -
  have "(of_nat (nat (sint n)) :: c_int) = of_int (int (nat (sint n)))"
    by (simp only: of_int_of_nat_eq)
  also have "int (nat (sint n)) = sint n" using assms by simp
  finally show ?thesis by simp
qed

lemma countdown_step:
  fixes n :: c_int
  assumes "\<not> n \<le>s 1"
  shows "countdown n = n # countdown (n - 1)"
proof -
  from assms have gt: "1 < sint n" by (simp add: word_sle_eq)
  obtain m where m: "nat (sint n) = Suc m" using gt by (cases "nat (sint n)") simp_all
  have pred: "nat (sint (n - 1)) = m" using sint_decrement [OF assms] m by simp
  have m1: "1 \<le> m" using gt m by linarith
  have n_eq: "(of_nat (Suc m) :: c_int) = n" using of_nat_nat_sint [of n] gt m by simp
  have "countdown (n - 1) = map of_nat (rev [1..<Suc m])"
  proof (cases "n - 1 \<le>s 1")
    case True
    then have "m = 1" using pred m1 sint_decrement [OF assms] by (simp add: word_sle_eq)
    moreover then have "n - 1 = 1" using n_eq by simp
    ultimately show ?thesis by (simp add: countdown_def)
  next
    case False
    then show ?thesis by (simp add: countdown_def pred)
  qed
  moreover have "countdown n = of_nat (Suc m) # map of_nat (rev [1..<Suc m])"
    using assms m by (simp add: countdown_def)
  ultimately show ?thesis using n_eq by simp
qed

lemma unwinding_base: "n \<le>s 1 \<Longrightarrow> unwinding n = []"
  using steps_base [of n] by (simp add: unwinding_def)

lemma unwinding_step:
  fixes n :: c_int
  assumes "\<not> n \<le>s 1"
  shows "unwinding n =
    unwinding (n - 1) @ [Continuation_for n (of_nat (fact (nat (sint (n - 1)))))]"
proof -
  from assms have gt: "1 < sint n" by (simp add: word_sle_eq)
  obtain m where m: "nat (sint n) = Suc m" using gt by (cases "nat (sint n)") simp_all
  have pred: "nat (sint (n - 1)) = m" using sint_decrement [OF assms] m by simp
  have m1: "1 \<le> m" using gt m by linarith
  have n_eq: "(of_nat (Suc m) :: c_int) = n" using of_nat_nat_sint [of n] gt m by simp
  have "[2..<Suc (Suc m)] = [2..<Suc m] @ [Suc m]" using m1 by simp
  then show ?thesis
    unfolding unwinding_def m pred using n_eq by simp
qed

lemma factorial_cps_closed_form:
  "factorial_cps n k out =
     invoke k (of_nat (fact (nat (sint n))))
       (out @ map Entering (countdown n) @ [Base_case] @ unwinding n)"
proof (induction n k out rule: factorial_cps.induct)
  case (1 n k out)
  show ?case
  proof (cases "n \<le>s 1")
    case True
    then show ?thesis
      by (simp add: factorial_cps_base fact_base unwinding_base countdown_def)
  next
    case False
    show ?thesis
      using "1.IH" [OF refl False refl] fact_step [OF False]
      by (simp add: factorial_cps_step [OF False] countdown_step [OF False]
          unwinding_step [OF False])
  qed
qed


text \<open>Induction along the countdown, and the order read from the output.\<close>

lemma countdown_induct:
  fixes n :: c_int
  assumes "\<And>n. (\<not> n \<le>s 1 \<Longrightarrow> P (n - 1)) \<Longrightarrow> P n"
  shows "P n"
proof -
  have "P n" for accumulator :: c_long_long
    by (induction n accumulator rule: factorial_helper.induct) (rule assms)
  then show ?thesis .
qed

lemma firing_order_append: "firing_order (xs @ ys) = firing_order xs @ firing_order ys"
  by (induction xs rule: firing_order.induct) simp_all

lemma firing_order_entering: "firing_order (map Entering ns) = []"
  by (induction ns) simp_all

text \<open>
  The instrumented run: its ghost results in closed form, and what can be read from the
  chain it hands to the base case.
\<close>

lemma multiplication_order_append:
  "multiplication_order (xs @ ys) = multiplication_order xs @ multiplication_order ys"
  by (induction xs rule: multiplication_order.induct) simp_all

lemma multiplication_order_entering: "multiplication_order (map Entering ns) = []"
  by (induction ns) simp_all

lemma firing_order_unwinding:
  "firing_order (unwinding n) = map of_nat [2..<Suc (nat (sint n))]"
proof -
  have "firing_order (map (\<lambda>i. Continuation_for (f i) (g i)) is) = map f is"
    for f g and "is" :: "nat list"
    by (induction "is") simp_all
  then show ?thesis by (simp add: unwinding_def)
qed

lemma length_firing_order_unwinding:
  "length (firing_order (unwinding n)) = nat (sint n) - 1"
  by (simp add: firing_order_unwinding) arith

lemma prod_multiplication_order_unwinding:
  "prod_list (multiplication_order (unwinding n)) = of_nat (fact (nat (sint n)))"
proof (induction n rule: countdown_induct)
  case (1 n)
  show ?case
  proof (cases "n \<le>s 1")
    case True
    then show ?thesis by (simp add: unwinding_base fact_base)
  next
    case False
    show ?thesis
      using "1" [OF False] fact_step [OF False]
      by (simp add: unwinding_step [OF False] multiplication_order_append mult.commute)
  qed
qed

lemma chain_order_fold: "chain_order (fold Next_k ns k) = rev ns @ chain_order k"
  by (induction ns arbitrary: k) simp_all

lemma chain_length_fold: "chain_length (fold Next_k ns k) = length ns + chain_length k"
  by (induction ns arbitrary: k) simp_all

lemma factorial_cps_instrumented_eq:
  "factorial_cps_instrumented n k out built steps =
     (factorial_cps n k out,
      fold Next_k (rev (firing_order (unwinding n))) k,
      built @ rev (firing_order (unwinding n)),
      steps + (nat (sint n) - 1))"
proof (induction n k out built steps rule: factorial_cps_instrumented.induct)
  case (1 n k out built steps)
  show ?case
  proof (cases "n \<le>s 1")
    case True
    then show ?thesis
      by (simp add: factorial_cps_instrumented_base factorial_cps_base unwinding_base
          steps_base)
  next
    case False
    show ?thesis
      using "1.IH" [OF refl False refl] steps_decrement [OF False]
      by (simp add: factorial_cps_instrumented_step [OF False] factorial_cps_step [OF False]
          unwinding_step [OF False] firing_order_append)
  qed
qed

lemma takeWhile_before_base_case:
  "takeWhile (\<lambda>e. e \<noteq> Base_case) (map Entering ns @ Base_case # out) = map Entering ns"
  by (induction ns) simp_all

section \<open>Properties of the continuation-passing variant\<close>

text \<open>
  C3. The continuation-passing run and the trampoline compute the same value at 5:
  \<^verbatim>\<open>factorial_cps(5, identity)\<close> and \<^verbatim>\<open>factorial_trampoline(5)\<close> both return 120.
\<close>

theorem cps_agrees_with_trampoline_at_5:
  "fst (factorial_cps 5 identity []) = factorial_trampoline 5
   \<and> factorial_trampoline 5 = 120
   \<and> fst (factorial_cps 5 identity []) = 120"
  by (simp add: factorial_cps.simps identity_def factorial_trampoline_def
      trampoline_loop.simps word_sle_eq)

text \<open>
  C4. For every starting \<open>n\<close>, in the run of \<^verbatim>\<open>factorial_cps(n, identity)\<close> no
  continuation fires before the base case passes 1 on; the chain handed to the base case
  holds the closures in the reverse of the order in which they were built, the last
  built outermost, and the continuations fire in that order, so the one built first, for
  the largest \<open>n\<close>, fires last. The factors multiplied in, in order, reconstruct the
  result. For \<open>n = 5\<close> the closures are built for 5, 4, 3, 2, the multiplication order is
  1, 2, 3, 4, 5 and the result is 120.
\<close>

theorem cps_continuations_fire_in_reverse_order:
  "(let (run, base_k, built, steps) = factorial_cps_instrumented n identity [] [] 0
    in run = factorial_cps n identity []
       \<and> snd run = map Entering (countdown n) @ [Base_case] @ unwinding n
       \<and> firing_order (takeWhile (\<lambda>e. e \<noteq> Base_case) (snd run)) = []
       \<and> chain_order base_k = rev built
       \<and> firing_order (snd run) = chain_order base_k
       \<and> firing_order (snd run) = rev built
       \<and> prod_list (multiplication_order (snd run)) = fst run)
   \<and> factorial_cps_instrumented 5 identity [] [] 0 =
       ((120, [Entering 5, Entering 4, Entering 3, Entering 2, Entering 1, Base_case,
               Continuation_for 2 1, Continuation_for 3 2, Continuation_for 4 6,
               Continuation_for 5 24]),
        Next_k 2 (Next_k 3 (Next_k 4 (Next_k 5 identity))), [5, 4, 3, 2], 4)
   \<and> multiplication_order (snd (factorial_cps 5 identity [])) = [1, 2, 3, 4, 5]
   \<and> prod_list (multiplication_order (snd (factorial_cps 5 identity []))) = 120
   \<and> fst (factorial_cps 5 identity []) = 120"
proof -
  have run: "factorial_cps n identity [] =
      (of_nat (fact (nat (sint n))),
       map Entering (countdown n) @ [Base_case] @ unwinding n)"
    by (simp add: factorial_cps_closed_form identity_def)
  have chain: "chain_order identity = []"
    by (simp add: identity_def)
  have general: "let (run, base_k, built, steps) = factorial_cps_instrumented n identity [] [] 0
    in run = factorial_cps n identity []
       \<and> snd run = map Entering (countdown n) @ [Base_case] @ unwinding n
       \<and> firing_order (takeWhile (\<lambda>e. e \<noteq> Base_case) (snd run)) = []
       \<and> chain_order base_k = rev built
       \<and> firing_order (snd run) = chain_order base_k
       \<and> firing_order (snd run) = rev built
       \<and> prod_list (multiplication_order (snd run)) = fst run"
    by (simp add: factorial_cps_instrumented_eq run chain chain_order_fold
        takeWhile_before_base_case firing_order_append firing_order_entering
        multiplication_order_append multiplication_order_entering
        prod_multiplication_order_unwinding)
  have five: "factorial_cps 5 identity [] =
       (120, [Entering 5, Entering 4, Entering 3, Entering 2, Entering 1, Base_case,
              Continuation_for 2 1, Continuation_for 3 2, Continuation_for 4 6,
              Continuation_for 5 24])"
    by (simp add: factorial_cps.simps identity_def word_sle_eq)
  have five_instrumented: "factorial_cps_instrumented 5 identity [] [] 0 =
       (factorial_cps 5 identity [],
        Next_k 2 (Next_k 3 (Next_k 4 (Next_k 5 identity))), [5, 4, 3, 2], 4)"
    unfolding five
    by (simp add: factorial_cps_instrumented.simps word_sle_eq) (simp add: identity_def)
  show ?thesis
    using general by (simp add: five_instrumented five)
qed

text \<open>
  C8. For every starting \<open>n\<close> and continuation \<open>k\<close>, the continuation that
  \<^verbatim>\<open>factorial_cps\<close> hands to the base case is \<open>k\<close> with one closure \<^verbatim>\<open>next_k\<close>
  chained on per non-base-case step: its chain is longer than that of \<open>k\<close> by the
  number of steps taken, and on a continuation supplied by the caller its length is that
  number. The run is the invocation of that chain on 1. At 3 the chain holds two
  closures after two steps, at 1 none after none.
\<close>

theorem cps_chain_length_is_step_count:
  "(let (run, base_k, built, steps) = factorial_cps_instrumented n k out [] 0
    in run = factorial_cps n k out
       \<and> run = invoke base_k 1 (out @ map Entering (countdown n) @ [Base_case])
       \<and> base_k = fold Next_k built k
       \<and> chain_length base_k = chain_length k + steps
       \<and> length built = steps
       \<and> steps = nat (sint n) - 1)
   \<and> (let (run, base_k, built, steps) = factorial_cps_instrumented n (Supplied f) out [] 0
       in chain_length base_k = steps)
   \<and> factorial_cps_instrumented 3 identity [] [] 0 =
       ((6, [Entering 3, Entering 2, Entering 1, Base_case,
             Continuation_for 2 1, Continuation_for 3 2]),
        Next_k 2 (Next_k 3 identity), [3, 2], 2)
   \<and> factorial_cps_instrumented 1 identity [] [] 0 =
       ((1, [Entering 1, Base_case]), identity, [], 0)"
proof -
  have invoke_fold: "invoke (fold Next_k (rev (firing_order (unwinding m))) c) 1
        (o' @ map Entering (countdown m) @ [Base_case]) = factorial_cps m c o'"
    for m c o'
  proof (induction m arbitrary: c o' rule: countdown_induct)
    case (1 m)
    show ?case
    proof (cases "m \<le>s 1")
      case True
      then show ?thesis by (simp add: unwinding_base countdown_def factorial_cps_base)
    next
      case False
      show ?thesis
        using "1" [OF False, of "Next_k m c" "o' @ [Entering m]"]
        by (simp add: unwinding_step [OF False] countdown_step [OF False]
            factorial_cps_step [OF False] firing_order_append)
    qed
  qed
  have three: "factorial_cps_instrumented 3 identity [] [] 0 =
       ((6, [Entering 3, Entering 2, Entering 1, Base_case,
             Continuation_for 2 1, Continuation_for 3 2]),
        Next_k 2 (Next_k 3 identity), [3, 2], 2)"
    by (simp add: factorial_cps_instrumented.simps word_sle_eq) (simp add: identity_def)
  have one: "factorial_cps_instrumented 1 identity [] [] 0 =
       ((1, [Entering 1, Base_case]), identity, [], 0)"
    by (simp add: factorial_cps_instrumented.simps word_sle_eq) (simp add: identity_def)
  have general: "let (run, base_k, built, steps) = factorial_cps_instrumented n k out [] 0
    in run = factorial_cps n k out
       \<and> run = invoke base_k 1 (out @ map Entering (countdown n) @ [Base_case])
       \<and> base_k = fold Next_k built k
       \<and> chain_length base_k = chain_length k + steps
       \<and> length built = steps
       \<and> steps = nat (sint n) - 1"
    by (simp add: factorial_cps_instrumented_eq chain_length_fold
        length_firing_order_unwinding invoke_fold)
  have supplied:
    "let (run, base_k, built, steps) = factorial_cps_instrumented n (Supplied f) out [] 0
     in chain_length base_k = steps"
    by (simp add: factorial_cps_instrumented_eq chain_length_fold
        length_firing_order_unwinding)
  show ?thesis
    using general supplied three one by blast
qed

end
